theory Spec2Isabelle
  imports Main "HOL-Library.Sublist" "HOL-Library.List_Lexorder" "HOL-Library.Char_ord"
begin

section \<open>Python text\<close>

text \<open>
  A Python \<open>str\<close> is a sequence of code points.  A text is modelled as a \<^typ>\<open>string\<close>
  whose characters are the code points 0 to 255; the character classes below are the ones
  of CPython on that range.  The two symbols of the report headers lie outside the range
  and are written as their UTF-8 bytes.
\<close>

definition code_point :: "char \<Rightarrow> nat" where
  "code_point c = of_char c"

definition chr :: "nat \<Rightarrow> string" where
  "chr n = [char_of n]"

text \<open>
  The class \<open>[A-Za-z0-9_]\<close> of the second group of the pattern; characters are ordered by
  their code points.
\<close>

definition is_arg_char :: "char \<Rightarrow> bool" where
  "is_arg_char c =
     ((CHR ''A'' \<le> c \<and> c \<le> CHR ''Z'') \<or> (CHR ''a'' \<le> c \<and> c \<le> CHR ''z'') \<or>
      (CHR ''0'' \<le> c \<and> c \<le> CHR ''9'') \<or> c = CHR ''_'')"

text \<open>
  The class \<open>\w\<close> of a \<open>str\<close> pattern: alphanumeric in the Unicode database, or the
  underscore.
\<close>

definition is_word :: "char \<Rightarrow> bool" where
  "is_word c =
     (let n = code_point c
      in is_arg_char c \<or> n = 170 \<or> n = 178 \<or> n = 179 \<or> n = 181 \<or> n = 185 \<or> n = 186
         \<or> (188 \<le> n \<and> n \<le> 190) \<or> (192 \<le> n \<and> n \<le> 214) \<or> (216 \<le> n \<and> n \<le> 246)
         \<or> (248 \<le> n \<and> n \<le> 255))"

text \<open>The class \<open>\s\<close> of a \<open>str\<close> pattern, which is also what \<open>str.strip()\<close> removes.\<close>

definition isspace :: "char \<Rightarrow> bool" where
  "isspace c =
     (let n = code_point c
      in (9 \<le> n \<and> n \<le> 13) \<or> (28 \<le> n \<and> n \<le> 32) \<or> n = 133 \<or> n = 160)"

definition strip :: "string \<Rightarrow> string" where
  "strip s = rev (dropWhile isspace (rev (dropWhile isspace s)))"

definition startswith :: "string \<Rightarrow> string \<Rightarrow> bool" where
  "startswith s p = prefix p s"

text \<open>\<open>sub in s\<close> on strings: \<open>sub\<close> occurs in \<open>s\<close> as a contiguous run.\<close>

definition contains :: "string \<Rightarrow> string \<Rightarrow> bool" where
  "contains s sub = sublist sub s"

text \<open>\<open>s.split(d)\<close> for a one-character separator: never empty, one piece more than separators.\<close>

fun split :: "char \<Rightarrow> string \<Rightarrow> string list" where
  "split d [] = [[]]"
| "split d (c # cs) =
     (if c = d then [] # split d cs
      else (case split d cs of [] \<Rightarrow> [[c]] | l # ls \<Rightarrow> (c # l) # ls))"

text \<open>\<open>sep.join(xs)\<close>.\<close>

fun join :: "string \<Rightarrow> string list \<Rightarrow> string" where
  "join sep [] = []"
| "join sep [x] = x"
| "join sep (x # y # ys) = x @ sep @ join sep (y # ys)"

text \<open>\<open>str(n)\<close> for a non-negative integer, as an f-string formats it.\<close>

function str_nat :: "nat \<Rightarrow> string" where
  "str_nat n =
     (if n < 10 then [''0123456789'' ! n]
      else str_nat (n div 10) @ [''0123456789'' ! (n mod 10)])"
  by pat_completeness auto
termination
  by (relation "measure id") auto

declare str_nat.simps [simp del]

definition squote :: "string \<Rightarrow> string" where
  "squote s = [CHR 0x27] @ s @ [CHR 0x27]"

text \<open>
  A set of strings is iterated in an order that depends on the hash seed of the run.  A run
  is given by the order in which it iterates each finite set; \<open>sorted\<close> collects the
  iteration into a list and sorts it by code points.
\<close>

type_synonym iteration = "string set \<Rightarrow> string list"

definition iteration_order :: "iteration \<Rightarrow> bool" where
  "iteration_order it = (\<forall>S. finite S \<longrightarrow> set (it S) = S \<and> distinct (it S))"

definition sorted_py :: "iteration \<Rightarrow> string set \<Rightarrow> string list" where
  "sorted_py it S = sort (it S)"


section \<open>The tables\<close>

definition VALID_KEYCODES :: "string set" where
  "VALID_KEYCODES = set (
      \<comment> \<open>Letters\<close>
      map chr [code_point CHR ''A'' ..< code_point CHR ''Z'' + 1] @
      \<comment> \<open>Numbers\<close>
      map (\<lambda>i. ''N'' @ str_nat i) [0..<10] @ map (\<lambda>i. ''NUMBER_'' @ str_nat i) [0..<10] @
      \<comment> \<open>Function keys\<close>
      map (\<lambda>i. ''F'' @ str_nat i) [1..<25] @
      \<comment> \<open>Modifiers\<close>
      [''LSHFT'', ''RSHFT'', ''LSHIFT'', ''RSHIFT'', ''LCTRL'', ''RCTRL'', ''LALT'', ''RALT'',
       ''LGUI'', ''RGUI'', ''LMETA'', ''RMETA'', ''LWIN'', ''RWIN'', ''LCMD'', ''RCMD'',
      \<comment> \<open>Navigation\<close>
       ''UP'', ''DOWN'', ''LEFT'', ''RIGHT'', ''HOME'', ''END'', ''PG_UP'', ''PG_DN'',
       ''PAGE_UP'', ''PAGE_DOWN'', ''INS'', ''INSERT'', ''DEL'', ''DELETE'',
      \<comment> \<open>Common keys\<close>
       ''SPACE'', ''RET'', ''RETURN'', ''ENTER'', ''TAB'', ''ESC'', ''ESCAPE'',
       ''BSPC'', ''BACKSPACE'', ''CAPS'', ''CAPSLOCK'', ''CAPS_LOCK'',
       ''PSCRN'', ''PRINTSCREEN'', ''PRINT_SCREEN'', ''SLCK'', ''SCROLLLOCK'', ''SCROLL_LOCK'',
       ''PAUSE_BREAK'', ''PAUSE'',
      \<comment> \<open>Punctuation\<close>
       ''MINUS'', ''EQUAL'', ''LBKT'', ''RBKT'', ''LBRC'', ''RBRC'',
       ''LEFT_BRACKET'', ''RIGHT_BRACKET'', ''LEFT_BRACE'', ''RIGHT_BRACE'',
       ''BSLH'', ''BACKSLASH'', ''SEMI'', ''SEMICOLON'', ''SQT'', ''APOS'', ''APOSTROPHE'',
       ''GRAVE'', ''COMMA'', ''DOT'', ''PERIOD'', ''SLASH'', ''FSLH'',
       ''TILDE'', ''EXCL'', ''EXCLAMATION'', ''AT'', ''AT_SIGN'', ''HASH'', ''POUND'',
       ''DLLR'', ''DOLLAR'', ''PRCNT'', ''PERCENT'', ''CARET'', ''AMPS'', ''AMPERSAND'',
       ''ASTRK'', ''ASTERISK'', ''STAR'', ''LPAR'', ''RPAR'',
       ''LEFT_PARENTHESIS'', ''RIGHT_PARENTHESIS'', ''UNDER'', ''UNDERSCORE'',
       ''PLUS'', ''PIPE'', ''COLON'', ''DQT'', ''DOUBLE_QUOTES'', ''LT'', ''GT'',
       ''QMARK'', ''QUESTION''] @
      \<comment> \<open>Numpad\<close>
      map (\<lambda>i. ''KP_N'' @ str_nat i) [0..<10] @
      [''KP_PLUS'', ''KP_MINUS'', ''KP_MULTIPLY'',
       ''KP_DIVIDE'', ''KP_DOT'', ''KP_ENTER'', ''KP_EQUAL'', ''KP_NUMLOCK'', ''NUMLOCK'',
      \<comment> \<open>Consumer/Media controls\<close>
       ''C_MUTE'', ''C_VOL_UP'', ''C_VOL_DN'', ''C_VOLUME_UP'', ''C_VOLUME_DOWN'',
       ''C_PP'', ''C_PLAY_PAUSE'', ''C_PLAY'', ''C_PAUSE'', ''C_STOP'',
       ''C_NEXT'', ''C_PREV'', ''C_PREVIOUS'', ''C_FF'', ''C_RW'', ''C_FAST_FORWARD'', ''C_REWIND'',
       ''C_BRI_UP'', ''C_BRI_DN'', ''C_BRIGHTNESS_INC'', ''C_BRIGHTNESS_DEC'',
       ''C_AL_CALC'', ''C_AL_WWW'', ''C_AL_MAIL'', ''C_AL_FILES'',
       ''C_AC_SEARCH'', ''C_AC_HOME'', ''C_AC_BACK'', ''C_AC_FORWARD'', ''C_AC_REFRESH'',
      \<comment> \<open>Mouse scroll\<close>
       ''SCRL_UP'', ''SCRL_DOWN'', ''SCRL_LEFT'', ''SCRL_RIGHT'',
      \<comment> \<open>Mouse move\<close>
       ''MOVE_UP'', ''MOVE_DOWN'', ''MOVE_LEFT'', ''MOVE_RIGHT'',
      \<comment> \<open>Mouse buttons\<close>
       ''LCLK'', ''RCLK'', ''MCLK'', ''MB1'', ''MB2'', ''MB3'', ''MB4'', ''MB5'',
      \<comment> \<open>Bluetooth\<close>
       ''BT_CLR'', ''BT_CLR_ALL'', ''BT_NXT'', ''BT_PRV''] @
      map (\<lambda>i. ''BT_SEL '' @ str_nat i) [0..<5] @
      \<comment> \<open>Output selection\<close>
      [''OUT_USB'', ''OUT_BLE'', ''OUT_TOG'',
      \<comment> \<open>Power\<close>
       ''C_PWR'', ''C_POWER'', ''C_SLEEP'', ''C_AL_LOCK'',
      \<comment> \<open>Reset\<close>
       ''RESET'', ''BOOTLOADER''])"

text \<open>Behaviors that need no keycode validation; the program never consults this table.\<close>

definition VALID_BEHAVIORS :: "string set" where
  "VALID_BEHAVIORS =
     {''trans'', ''none'', ''kp'', ''mo'', ''lt'', ''mt'', ''sk'', ''sl'', ''tog'', ''to'',
      ''bt'', ''mkp'', ''msc'', ''mmv'', ''mms'', ''out'', ''rgb_ug'', ''ext_power'',
      ''caps_word'', ''key_repeat'', ''reset'', ''bootloader'', ''sys_reset''}"

definition valid_mkp :: "string set" where
  "valid_mkp = {''LCLK'', ''RCLK'', ''MCLK'', ''MB1'', ''MB2'', ''MB3'', ''MB4'', ''MB5''}"

definition valid_msc :: "string set" where
  "valid_msc = {''SCRL_UP'', ''SCRL_DOWN'', ''SCRL_LEFT'', ''SCRL_RIGHT''}"

definition valid_mmv :: "string set" where
  "valid_mmv = {''MOVE_UP'', ''MOVE_DOWN'', ''MOVE_LEFT'', ''MOVE_RIGHT''}"


section \<open>Extraction\<close>

text \<open>
  The pattern \<open>&(\w+)\s+([A-Za-z0-9_]+)\<close> tried at the head of a string.  No character is
  both in \<open>\w\<close> and in \<open>\s\<close>, or both in \<open>\s\<close> and in \<open>[A-Za-z0-9_]\<close>, so
  backtracking never helps: each of the three greedy runs is the longest one, or the
  pattern fails here.  The result is the two groups and the white space between them.
\<close>

definition match_here :: "string \<Rightarrow> (string \<times> string \<times> string) option" where
  "match_here s =
     (case s of
        [] \<Rightarrow> None
      | c # r \<Rightarrow>
          if c \<noteq> CHR ''&'' then None
          else
            let g1 = takeWhile is_word r; r1 = dropWhile is_word r;
                ws = takeWhile isspace r1; r2 = dropWhile isspace r1;
                g2 = takeWhile is_arg_char r2
            in if g1 = [] \<or> ws = [] \<or> g2 = [] then None else Some (g1, ws, g2))"

text \<open>A match object: its span in the line and its two groups.\<close>

record re_match =
  span_start :: nat
  span_end :: nat
  group1 :: string
  group2 :: string

text \<open>
  \<open>re.finditer\<close>: the search moves right one character after a failure and resumes at the
  end of a match after a success.
\<close>

function scan :: "nat \<Rightarrow> string \<Rightarrow> re_match list" where
  "scan pos [] = []"
| "scan pos (c # cs) =
     (case match_here (c # cs) of
        None \<Rightarrow> scan (Suc pos) cs
      | Some (g1, ws, g2) \<Rightarrow>
          \<lparr>span_start = pos, span_end = pos + (1 + length g1 + length ws + length g2),
           group1 = g1, group2 = g2\<rparr>
          # scan (pos + (1 + length g1 + length ws + length g2))
              (drop (1 + length g1 + length ws + length g2) (c # cs)))"
  by pat_completeness auto
termination
  by (relation "measure (\<lambda>(pos, s). length s)") auto

declare scan.simps [simp del]

definition finditer :: "string \<Rightarrow> re_match list" where
  "finditer line = scan 0 line"

type_synonym binding = "nat \<times> string \<times> string"

definition is_comment :: "string \<Rightarrow> bool" where
  "is_comment line = (startswith (strip line) ''//'' \<or> startswith (strip line) ''/*'')"

text \<open>The body of the loop over the numbered lines, on the list built so far.\<close>

definition extract_line :: "binding list \<Rightarrow> nat \<times> string \<Rightarrow> binding list" where
  "extract_line bindings il =
     (case il of (i, line) \<Rightarrow>
        if is_comment line then bindings
        else foldl (\<lambda>bs m. bs @ [(i, group1 m, group2 m)]) bindings (finditer line))"

definition extract_bindings :: "string \<Rightarrow> binding list" where
  "extract_bindings content =
     foldl extract_line [] (enumerate 1 (split CHR 0x0A content))"


section \<open>Validation\<close>

definition kp_message :: "nat \<Rightarrow> string \<Rightarrow> string" where
  "kp_message line_num arg =
     (let suggestions = [];
          suggestions = (if contains arg ''VOL_MUTE'' then suggestions @ [''C_MUTE'']
                         else suggestions);
          suggestions = (if contains arg ''VOL_DOWN'' then suggestions @ [''C_VOL_DN'']
                         else suggestions);
          msg = ''Line '' @ str_nat line_num @ '': Unknown keycode '' @ squote arg
      in if suggestions \<noteq> [] then msg @ '' (did you mean: '' @ join '', '' suggestions @ ''?)''
         else msg)"

text \<open>The body of the loop over the bindings, on the list of errors built so far.\<close>

definition validate_step :: "iteration \<Rightarrow> string list \<Rightarrow> binding \<Rightarrow> string list" where
  "validate_step it errors b =
     (case b of (line_num, behavior, arg) \<Rightarrow>
        if behavior = ''kp'' then
          (if arg \<notin> VALID_KEYCODES then errors @ [kp_message line_num arg] else errors)
        else if behavior = ''mkp'' then
          (if arg \<notin> valid_mkp then
             errors @ [''Line '' @ str_nat line_num @ '': Invalid mouse button '' @ squote arg
                       @ '' (valid: '' @ join '', '' (sorted_py it valid_mkp) @ '')'']
           else errors)
        else if behavior = ''msc'' then
          (if arg \<notin> valid_msc then
             errors @ [''Line '' @ str_nat line_num @ '': Invalid scroll code '' @ squote arg
                       @ '' (valid: '' @ join '', '' (sorted_py it valid_msc) @ '')'']
           else errors)
        else if behavior = ''mmv'' then
          (if arg \<notin> valid_mmv then
             errors @ [''Line '' @ str_nat line_num @ '': Invalid mouse move '' @ squote arg
                       @ '' (valid: '' @ join '', '' (sorted_py it valid_mmv) @ '')'']
           else errors)
        else errors)"

definition validate_bindings :: "iteration \<Rightarrow> binding list \<Rightarrow> string list" where
  "validate_bindings it bindings = foldl (validate_step it) [] bindings"

text \<open>
  A path object: what \<open>str\<close> prints for it, whether it exists, and the text that
  \<open>read_text\<close> returns (\<open>None\<close> when the read raises).
\<close>

record path =
  path_str :: string
  path_exists :: bool
  read_text :: "string option"

text \<open>\<open>validate_keymap\<close>: \<open>None\<close> when reading the file raises.\<close>

definition validate_keymap :: "iteration \<Rightarrow> path \<Rightarrow> string list option" where
  "validate_keymap it filepath =
     (case read_text filepath of
        None \<Rightarrow> None
      | Some content \<Rightarrow> Some (validate_bindings it (extract_bindings content)))"


section \<open>The entry point\<close>






section \<open>The validation loop\<close>

text \<open>Each pass of the loop appends to the errors and never looks at them.\<close>

lemma validate_step_append:
  "validate_step it errors b = errors @ validate_step it [] b"
  by (cases b) (simp add: validate_step_def)

lemma foldl_validate_step:
  "foldl (validate_step it) acc bs = acc @ concat (map (validate_step it []) bs)"
proof (induction bs arbitrary: acc)
  case Nil
  show ?case by simp
next
  case (Cons b bs)
  have "foldl (validate_step it) acc (b # bs) = foldl (validate_step it) (validate_step it acc b) bs"
    by simp
  also have "\<dots> = validate_step it acc b @ concat (map (validate_step it []) bs)"
    by (rule Cons.IH)
  also have "\<dots> = acc @ validate_step it [] b @ concat (map (validate_step it []) bs)"
    using validate_step_append [of it acc b] by simp
  finally show ?case by simp
qed

lemma validate_bindings_concat:
  "validate_bindings it bs = concat (map (validate_step it []) bs)"
  by (simp add: validate_bindings_def foldl_validate_step)

lemma validate_bindings_split:
  "validate_bindings it (bs @ b # cs) =
     validate_bindings it bs @ validate_step it [] b @ validate_bindings it cs"
  by (simp add: validate_bindings_concat)

lemma kp_message_cases:
  "kp_message n arg =
     ''Line '' @ str_nat n @ '': Unknown keycode '' @ squote arg @
       (if contains arg ''VOL_MUTE'' \<and> contains arg ''VOL_DOWN''
          then '' (did you mean: C_MUTE, C_VOL_DN?)''
        else if contains arg ''VOL_MUTE'' then '' (did you mean: C_MUTE?)''
        else if contains arg ''VOL_DOWN'' then '' (did you mean: C_VOL_DN?)''
        else [])"
  by (simp add: kp_message_def)

text \<open>
  C1.  Wherever a binding with behavior \<open>kp\<close> stands in the list of bindings, it contributes
  a diagnostic exactly when its argument is not in the keycode set.  The diagnostic is
  \<open>Line <n>: Unknown keycode '<arg>'\<close>, followed by \<open>(did you mean: C_MUTE?)\<close> when the
  argument contains \<open>VOL_MUTE\<close>, by \<open>(did you mean: C_VOL_DN?)\<close> when it contains
  \<open>VOL_DOWN\<close>, by both suggestions joined with a comma in one parenthesis when it contains
  both, and by nothing when it contains neither.
\<close>

theorem kp_diagnostic:
  "validate_bindings it (bs @ (n, ''kp'', arg) # cs) =
     validate_bindings it bs @
     (if arg \<in> VALID_KEYCODES then []
      else [''Line '' @ str_nat n @ '': Unknown keycode '' @ squote arg @
              (if contains arg ''VOL_MUTE'' \<and> contains arg ''VOL_DOWN''
                 then '' (did you mean: C_MUTE, C_VOL_DN?)''
               else if contains arg ''VOL_MUTE'' then '' (did you mean: C_MUTE?)''
               else if contains arg ''VOL_DOWN'' then '' (did you mean: C_VOL_DN?)''
               else [])]) @
     validate_bindings it cs"
proof -
  have "validate_step it [] (n, ''kp'', arg) =
          (if arg \<in> VALID_KEYCODES then [] else [kp_message n arg])"
    by (simp add: validate_step_def)
  then show ?thesis
    unfolding validate_bindings_split kp_message_cases by simp
qed

theorem kp_diagnostic_witness:
  "validate_bindings sorted_list_of_set (extract_bindings ''&kp C_VOL_MUTE'') =
     [''Line 1: Unknown keycode 'C_VOL_MUTE' (did you mean: C_MUTE?)'']"
proof -
  have e: "extract_bindings ''&kp C_VOL_MUTE'' = [] @ (1, ''kp'', ''C_VOL_MUTE'') # []"
    by code_simp
  have a: "''C_VOL_MUTE'' \<notin> VALID_KEYCODES"
    by code_simp
  have b: "contains ''C_VOL_MUTE'' ''VOL_MUTE''"
    by code_simp
  have c: "\<not> contains ''C_VOL_MUTE'' ''VOL_DOWN''"
    by code_simp
  have d: "str_nat 1 = ''1''"
    by code_simp
  have v: "validate_bindings sorted_list_of_set [] = []"
    by (simp add: validate_bindings_def)
  show ?thesis
    unfolding e kp_diagnostic using a b c d v by (simp add: squote_def)
qed

text \<open>
  C6.  A binding whose behavior is none of \<open>kp\<close>, \<open>mkp\<close>, \<open>msc\<close>, \<open>mmv\<close> contributes no
  diagnostic, whatever its argument and whether or not its name is in the table of
  behaviors.
\<close>

theorem other_behavior_silent:
  "behavior \<notin> {''kp'', ''mkp'', ''msc'', ''mmv''} \<Longrightarrow>
     validate_bindings it (bs @ (n, behavior, arg) # cs) =
       validate_bindings it bs @ validate_bindings it cs"
proof -
  assume "behavior \<notin> {''kp'', ''mkp'', ''msc'', ''mmv''}"
  then have "validate_step it [] (n, behavior, arg) = []"
    by (simp add: validate_step_def)
  then show ?thesis
    by (simp add: validate_bindings_split)
qed

theorem other_behavior_silent_witness:
  "''mo'' \<in> VALID_BEHAVIORS \<and>
   validate_bindings sorted_list_of_set [(7, ''mo'', ''ZZZZ'')] = [] \<and>
   ''foo'' \<notin> VALID_BEHAVIORS \<and>
   validate_bindings sorted_list_of_set [(7, ''foo'', ''ZZZZ'')] = []"
proof -
  have h: "''mo'' \<notin> {''kp'', ''mkp'', ''msc'', ''mmv''}"
    by simp
  have k: "''foo'' \<notin> {''kp'', ''mkp'', ''msc'', ''mmv''}"
    by simp
  have t: "''mo'' \<in> VALID_BEHAVIORS" "''foo'' \<notin> VALID_BEHAVIORS"
    by (simp_all add: VALID_BEHAVIORS_def)
  have v: "validate_bindings sorted_list_of_set [] = []"
    by (simp add: validate_bindings_def)
  show ?thesis
    using t v
      other_behavior_silent [OF h, of sorted_list_of_set "[]" 7 "''ZZZZ''" "[]"]
      other_behavior_silent [OF k, of sorted_list_of_set "[]" 7 "''ZZZZ''" "[]"]
    by simp
qed


section \<open>Sets and the order of their iteration\<close>

text \<open>Sorting makes the order in which a run iterates a set irrelevant.\<close>

lemma sorted_py_unique:
  assumes "iteration_order it" and "finite S"
  shows "sorted_py it S = sorted_list_of_set S"
proof -
  from assms have s: "set (it S) = S" and d: "distinct (it S)"
    by (simp_all add: iteration_order_def)
  have "sorted_list_of_set (set (it S)) = sort (remdups (it S))"
    by (rule sorted_list_of_set_sort_remdups)
  with s d show ?thesis
    by (simp add: sorted_py_def distinct_remdups_id)
qed

lemma iteration_order_sorted: "iteration_order sorted_list_of_set"
  by (simp add: iteration_order_def)

lemma sorted_valid_mkp:
  "sorted_list_of_set valid_mkp =
     [''LCLK'', ''MB1'', ''MB2'', ''MB3'', ''MB4'', ''MB5'', ''MCLK'', ''RCLK'']"
  by code_simp

lemma sorted_valid_msc:
  "sorted_list_of_set valid_msc = [''SCRL_DOWN'', ''SCRL_LEFT'', ''SCRL_RIGHT'', ''SCRL_UP'']"
  by code_simp

lemma sorted_valid_mmv:
  "sorted_list_of_set valid_mmv = [''MOVE_DOWN'', ''MOVE_LEFT'', ''MOVE_RIGHT'', ''MOVE_UP'']"
  by code_simp

lemma finite_tables: "finite valid_mkp" "finite valid_msc" "finite valid_mmv"
  by (simp_all add: valid_mkp_def valid_msc_def valid_mmv_def)

lemma iteration_order_rev: "iteration_order (\<lambda>S. rev (sorted_list_of_set S))"
  by (simp add: iteration_order_def)

lemma validate_step_run:
  assumes "iteration_order it"
  shows "validate_step it errors b = validate_step sorted_list_of_set errors b"
proof -
  have o: "iteration_order sorted_list_of_set"
    by (rule iteration_order_sorted)
  have "sorted_py it valid_mkp = sorted_py sorted_list_of_set valid_mkp"
       "sorted_py it valid_msc = sorted_py sorted_list_of_set valid_msc"
       "sorted_py it valid_mmv = sorted_py sorted_list_of_set valid_mmv"
    using assms o by (simp_all add: sorted_py_unique finite_tables)
  then show ?thesis
    by (cases b) (simp add: validate_step_def)
qed

lemma validate_bindings_run:
  assumes "iteration_order it"
  shows "validate_bindings it bs = validate_bindings sorted_list_of_set bs"
proof -
  have "validate_step it [] = validate_step sorted_list_of_set []"
    by (rule ext) (rule validate_step_run [OF assms])
  then show ?thesis
    by (simp add: validate_bindings_concat)
qed

text \<open>
  C2.  In every run, a binding with behavior \<open>mkp\<close>, \<open>msc\<close> or \<open>mmv\<close> contributes a
  diagnostic exactly when its argument is outside the set of mouse buttons, of scroll
  codes or of move codes respectively.  The values listed in the diagnostic, joined with
  \<open>, \<close>, form a sorted list whose elements are exactly those of that set.
\<close>

theorem mouse_diagnostics:
  assumes "iteration_order it"
  shows
    "validate_bindings it (bs @ (n, ''mkp'', arg) # cs) =
       validate_bindings it bs @
       (if arg \<in> {''LCLK'', ''RCLK'', ''MCLK'', ''MB1'', ''MB2'', ''MB3'', ''MB4'', ''MB5''} then []
        else [''Line '' @ str_nat n @ '': Invalid mouse button '' @ squote arg @ '' (valid: '' @
              join '', '' [''LCLK'', ''MB1'', ''MB2'', ''MB3'', ''MB4'', ''MB5'', ''MCLK'', ''RCLK'']
              @ '')'']) @
       validate_bindings it cs \<and>
     validate_bindings it (bs @ (n, ''msc'', arg) # cs) =
       validate_bindings it bs @
       (if arg \<in> {''SCRL_UP'', ''SCRL_DOWN'', ''SCRL_LEFT'', ''SCRL_RIGHT''} then []
        else [''Line '' @ str_nat n @ '': Invalid scroll code '' @ squote arg @ '' (valid: '' @
              join '', '' [''SCRL_DOWN'', ''SCRL_LEFT'', ''SCRL_RIGHT'', ''SCRL_UP''] @ '')'']) @
       validate_bindings it cs \<and>
     validate_bindings it (bs @ (n, ''mmv'', arg) # cs) =
       validate_bindings it bs @
       (if arg \<in> {''MOVE_UP'', ''MOVE_DOWN'', ''MOVE_LEFT'', ''MOVE_RIGHT''} then []
        else [''Line '' @ str_nat n @ '': Invalid mouse move '' @ squote arg @ '' (valid: '' @
              join '', '' [''MOVE_DOWN'', ''MOVE_LEFT'', ''MOVE_RIGHT'', ''MOVE_UP''] @ '')'']) @
       validate_bindings it cs \<and>
     sorted [''LCLK'', ''MB1'', ''MB2'', ''MB3'', ''MB4'', ''MB5'', ''MCLK'', ''RCLK''] \<and>
     set [''LCLK'', ''MB1'', ''MB2'', ''MB3'', ''MB4'', ''MB5'', ''MCLK'', ''RCLK''] =
       {''LCLK'', ''RCLK'', ''MCLK'', ''MB1'', ''MB2'', ''MB3'', ''MB4'', ''MB5''} \<and>
     sorted [''SCRL_DOWN'', ''SCRL_LEFT'', ''SCRL_RIGHT'', ''SCRL_UP''] \<and>
     set [''SCRL_DOWN'', ''SCRL_LEFT'', ''SCRL_RIGHT'', ''SCRL_UP''] =
       {''SCRL_UP'', ''SCRL_DOWN'', ''SCRL_LEFT'', ''SCRL_RIGHT''} \<and>
     sorted [''MOVE_DOWN'', ''MOVE_LEFT'', ''MOVE_RIGHT'', ''MOVE_UP''] \<and>
     set [''MOVE_DOWN'', ''MOVE_LEFT'', ''MOVE_RIGHT'', ''MOVE_UP''] =
       {''MOVE_UP'', ''MOVE_DOWN'', ''MOVE_LEFT'', ''MOVE_RIGHT''}"
proof -
  have mkp: "sorted_py it valid_mkp =
      [''LCLK'', ''MB1'', ''MB2'', ''MB3'', ''MB4'', ''MB5'', ''MCLK'', ''RCLK'']"
    using assms by (simp add: sorted_py_unique finite_tables sorted_valid_mkp)
  have msc: "sorted_py it valid_msc = [''SCRL_DOWN'', ''SCRL_LEFT'', ''SCRL_RIGHT'', ''SCRL_UP'']"
    using assms by (simp add: sorted_py_unique finite_tables sorted_valid_msc)
  have mmv: "sorted_py it valid_mmv = [''MOVE_DOWN'', ''MOVE_LEFT'', ''MOVE_RIGHT'', ''MOVE_UP'']"
    using assms by (simp add: sorted_py_unique finite_tables sorted_valid_mmv)
  have 1: "validate_step it [] (n, ''mkp'', arg) =
      (if arg \<in> valid_mkp then []
       else [''Line '' @ str_nat n @ '': Invalid mouse button '' @ squote arg @ '' (valid: '' @
             join '', '' [''LCLK'', ''MB1'', ''MB2'', ''MB3'', ''MB4'', ''MB5'', ''MCLK'', ''RCLK'']
             @ '')''])"
    unfolding validate_step_def mkp by simp
  have 2: "validate_step it [] (n, ''msc'', arg) =
      (if arg \<in> valid_msc then []
       else [''Line '' @ str_nat n @ '': Invalid scroll code '' @ squote arg @ '' (valid: '' @
             join '', '' [''SCRL_DOWN'', ''SCRL_LEFT'', ''SCRL_RIGHT'', ''SCRL_UP''] @ '')''])"
    unfolding validate_step_def msc by simp
  have 3: "validate_step it [] (n, ''mmv'', arg) =
      (if arg \<in> valid_mmv then []
       else [''Line '' @ str_nat n @ '': Invalid mouse move '' @ squote arg @ '' (valid: '' @
             join '', '' [''MOVE_DOWN'', ''MOVE_LEFT'', ''MOVE_RIGHT'', ''MOVE_UP''] @ '')''])"
    unfolding validate_step_def mmv by simp
  have s1: "sorted [''LCLK'', ''MB1'', ''MB2'', ''MB3'', ''MB4'', ''MB5'', ''MCLK'', ''RCLK'']"
    by code_simp
  have s2: "sorted [''SCRL_DOWN'', ''SCRL_LEFT'', ''SCRL_RIGHT'', ''SCRL_UP'']"
    by code_simp
  have s3: "sorted [''MOVE_DOWN'', ''MOVE_LEFT'', ''MOVE_RIGHT'', ''MOVE_UP'']"
    by code_simp
  have e1: "set [''LCLK'', ''MB1'', ''MB2'', ''MB3'', ''MB4'', ''MB5'', ''MCLK'', ''RCLK''] =
       {''LCLK'', ''RCLK'', ''MCLK'', ''MB1'', ''MB2'', ''MB3'', ''MB4'', ''MB5''}"
    by auto
  have e2: "set [''SCRL_DOWN'', ''SCRL_LEFT'', ''SCRL_RIGHT'', ''SCRL_UP''] =
       {''SCRL_UP'', ''SCRL_DOWN'', ''SCRL_LEFT'', ''SCRL_RIGHT''}"
    by auto
  have e3: "set [''MOVE_DOWN'', ''MOVE_LEFT'', ''MOVE_RIGHT'', ''MOVE_UP''] =
       {''MOVE_UP'', ''MOVE_DOWN'', ''MOVE_LEFT'', ''MOVE_RIGHT''}"
    by auto
  show ?thesis
    unfolding validate_bindings_split 1 2 3
    using s1 s2 s3 e1 e2 e3 unfolding valid_mkp_def valid_msc_def valid_mmv_def by blast
qed

theorem mouse_diagnostics_witness:
  "validate_bindings sorted_list_of_set (extract_bindings ''&mkp MB9'') =
     [''Line 1: Invalid mouse button 'MB9' (valid: LCLK, MB1, MB2, MB3, MB4, MB5, MCLK, RCLK)'']"
proof -
  have e: "extract_bindings ''&mkp MB9'' = [] @ (1, ''mkp'', ''MB9'') # []"
    by code_simp
  have d: "str_nat 1 = ''1''"
    by code_simp
  have v: "validate_bindings sorted_list_of_set [] = []"
    by (simp add: validate_bindings_def)
  have m: "validate_bindings sorted_list_of_set ([] @ (1, ''mkp'', ''MB9'') # []) =
       validate_bindings sorted_list_of_set [] @
       (if ''MB9'' \<in> {''LCLK'', ''RCLK'', ''MCLK'', ''MB1'', ''MB2'', ''MB3'', ''MB4'', ''MB5''} then []
        else [''Line '' @ str_nat 1 @ '': Invalid mouse button '' @ squote ''MB9'' @ '' (valid: '' @
              join '', '' [''LCLK'', ''MB1'', ''MB2'', ''MB3'', ''MB4'', ''MB5'', ''MCLK'', ''RCLK'']
              @ '')'']) @
       validate_bindings sorted_list_of_set []"
    using mouse_diagnostics [OF iteration_order_sorted, of "[]" 1 "''MB9''" "[]"] by blast
  show ?thesis
    unfolding e m using d v by (simp add: squote_def)
qed

text \<open>
  C8.  Two runs that read the same text return the same result, the same diagnostics in the
  same order, whatever the order in which each of them iterates its sets.
\<close>

theorem validation_deterministic:
  assumes "iteration_order it1" and "iteration_order it2"
    and "read_text filepath1 = read_text filepath2"
  shows "validate_keymap it1 filepath1 = validate_keymap it2 filepath2"
proof -
  have "validate_bindings it1 bs = validate_bindings it2 bs" for bs
    using assms(1,2) by (simp add: validate_bindings_run)
  with assms(3) show ?thesis
    by (simp add: validate_keymap_def split: option.split)
qed

theorem validation_deterministic_witness:
  "validate_keymap sorted_list_of_set
     \<lparr>path_str = ''a.keymap'', path_exists = True, read_text = Some ''&mkp MB9''\<rparr> =
   validate_keymap (\<lambda>S. rev (sorted_list_of_set S))
     \<lparr>path_str = ''b.keymap'', path_exists = True, read_text = Some ''&mkp MB9''\<rparr>"
  using validation_deterministic [OF iteration_order_sorted iteration_order_rev,
      of "\<lparr>path_str = ''a.keymap'', path_exists = True, read_text = Some ''&mkp MB9''\<rparr>"
         "\<lparr>path_str = ''b.keymap'', path_exists = True, read_text = Some ''&mkp MB9''\<rparr>"]
  by simp


section \<open>The report\<close>






section \<open>The pattern\<close>


lemma underscore_code: "(c = CHR ''_'') = (of_char c = (95::nat))"
proof -
  have "(c = CHR ''_'') = (of_char c = (of_char CHR ''_'' :: nat))"
    by (simp only: of_char_eq_iff)
  then show ?thesis
    by simp
qed

lemma arg_char_code_point:
  "is_arg_char c =
     ((65 \<le> code_point c \<and> code_point c \<le> 90) \<or> (97 \<le> code_point c \<and> code_point c \<le> 122) \<or>
      (48 \<le> code_point c \<and> code_point c \<le> 57) \<or> code_point c = 95)"
  unfolding is_arg_char_def code_point_def less_eq_char_def underscore_code
  by simp

lemma space_not_word: "isspace c \<Longrightarrow> \<not> is_word c"
  by (auto simp: is_word_def isspace_def arg_char_code_point Let_def)

lemma arg_char_not_space: "is_arg_char c \<Longrightarrow> \<not> isspace c"
  by (auto simp: isspace_def arg_char_code_point Let_def)

lemma arg_char_word: "is_arg_char c \<Longrightarrow> is_word c"
  by (simp add: is_word_def Let_def)

text \<open>What a match at the head of a string consists of.\<close>

lemma match_here_SomeD:
  assumes "match_here s = Some (g1, ws, g2)"
  shows "\<exists>rest. s = CHR ''&'' # g1 @ ws @ g2 @ rest"
    and "g1 \<noteq> []" and "ws \<noteq> []" and "g2 \<noteq> []"
    and "\<forall>c\<in>set g1. is_word c" and "\<forall>c\<in>set ws. isspace c" and "\<forall>c\<in>set g2. is_arg_char c"
proof -
  from assms obtain r where s: "s = CHR ''&'' # r"
    by (auto simp: match_here_def split: list.splits if_splits)
  from assms s have g1: "g1 = takeWhile is_word r"
    and ws: "ws = takeWhile isspace (dropWhile is_word r)"
    and g2: "g2 = takeWhile is_arg_char (dropWhile isspace (dropWhile is_word r))"
    and ne: "g1 \<noteq> []" "ws \<noteq> []" "g2 \<noteq> []"
    by (auto simp: match_here_def Let_def split: if_splits)
  have "r = g1 @ ws @ g2 @ dropWhile is_arg_char (dropWhile isspace (dropWhile is_word r))"
    unfolding g1 ws g2 by simp
  with s show "\<exists>rest. s = CHR ''&'' # g1 @ ws @ g2 @ rest"
    by blast
  show "g1 \<noteq> []" "ws \<noteq> []" "g2 \<noteq> []"
    by (rule ne)+
  show "\<forall>c\<in>set g1. is_word c" "\<forall>c\<in>set ws. isspace c" "\<forall>c\<in>set g2. is_arg_char c"
    unfolding g1 ws g2 by (auto dest: set_takeWhileD)
qed

lemma scan_None:
  "match_here (c # cs) = None \<Longrightarrow> scan pos (c # cs) = scan (Suc pos) cs"
  by (simp add: scan.simps)

lemma scan_Some:
  "match_here (c # cs) = Some (g1, ws, g2) \<Longrightarrow>
     scan pos (c # cs) =
       \<lparr>span_start = pos, span_end = pos + (1 + length g1 + length ws + length g2),
        group1 = g1, group2 = g2\<rparr>
       # scan (pos + (1 + length g1 + length ws + length g2))
           (drop (length g1 + length ws + length g2) cs)"
  by (simp add: scan.simps)

lemma scan_member:
  "m \<in> set (scan pos s) \<Longrightarrow>
     group1 m \<noteq> [] \<and> (\<forall>c\<in>set (group1 m). is_word c) \<and>
     group2 m \<noteq> [] \<and> (\<forall>c\<in>set (group2 m). is_arg_char c) \<and>
     pos \<le> span_start m \<and> span_start m < span_end m \<and> span_end m \<le> pos + length s"
proof (induction "length s" arbitrary: s pos rule: less_induct)
  case less
  show ?case
  proof (cases s)
    case Nil
    with less.prems show ?thesis by (simp add: scan.simps)
  next
    case (Cons c cs)
    show ?thesis
    proof (cases "match_here (c # cs)")
      case None
      with less.prems Cons have "m \<in> set (scan (Suc pos) cs)"
        by (simp only: scan_None)
      with less.hyps [of cs "Suc pos"] Cons show ?thesis
        by simp
    next
      case (Some t)
      obtain g1 ws g2 where t: "t = (g1, ws, g2)"
        by (cases t) auto
      let ?n = "length g1 + length ws + length g2"
      note d = match_here_SomeD [OF Some [unfolded t]]
      from d(1) have len: "?n \<le> length cs"
        by auto
      from less.prems Cons Some t
      consider "m = \<lparr>span_start = pos, span_end = pos + (1 + ?n), group1 = g1, group2 = g2\<rparr>"
        | "m \<in> set (scan (pos + (1 + ?n)) (drop ?n cs))"
        by (auto simp only: scan_Some set_simps add.assoc)
      then show ?thesis
      proof cases
        case 1
        with d len Cons show ?thesis by simp
      next
        case 2
        have "length (drop ?n cs) < length s"
          using Cons by simp
        from less.hyps [OF this 2] len Cons show ?thesis
          by simp
      qed
    qed
  qed
qed

lemma scan_sorted:
  "sorted_wrt (\<lambda>m m'. span_end m \<le> span_start m') (scan pos s)"
proof (induction "length s" arbitrary: s pos rule: less_induct)
  case less
  show ?case
  proof (cases s)
    case Nil
    then show ?thesis by (simp add: scan.simps)
  next
    case (Cons c cs)
    show ?thesis
    proof (cases "match_here (c # cs)")
      case None
      with less.hyps [of cs "Suc pos"] Cons show ?thesis
        by (simp only: scan_None) simp
    next
      case (Some t)
      obtain g1 ws g2 where t: "t = (g1, ws, g2)"
        by (cases t) auto
      let ?n = "length g1 + length ws + length g2"
      have "length (drop ?n cs) < length s"
        using Cons by simp
      from less.hyps [OF this]
      have "sorted_wrt (\<lambda>m m'. span_end m \<le> span_start m') (scan (pos + (1 + ?n)) (drop ?n cs))" .
      moreover have "\<forall>m\<in>set (scan (pos + (1 + ?n)) (drop ?n cs)). pos + (1 + ?n) \<le> span_start m"
        using scan_member by blast
      ultimately show ?thesis
        unfolding Cons scan_Some [OF Some [unfolded t]] by (simp add: add.assoc)
    qed
  qed
qed


section \<open>Extraction, line by line\<close>

lemma foldl_snoc_map: "foldl (\<lambda>bs m. bs @ [f m]) acc ms = acc @ map f ms"
  by (induction ms arbitrary: acc) simp_all

lemma extract_line_append:
  "extract_line bindings (i, line) =
     bindings @ (if is_comment line then []
                 else map (\<lambda>m. (i, group1 m, group2 m)) (finditer line))"
  by (simp add: extract_line_def foldl_snoc_map)

lemma foldl_extract_line:
  "foldl extract_line acc ils = acc @ concat (map (extract_line []) ils)"
proof (induction ils arbitrary: acc)
  case Nil
  show ?case by simp
next
  case (Cons il ils)
  obtain i line where il: "il = (i, line)"
    by (cases il) auto
  have "extract_line acc il = acc @ extract_line [] il"
    unfolding il extract_line_append by simp
  with Cons.IH [of "extract_line acc il"] show ?case
    by simp
qed

lemma extract_bindings_concat:
  "extract_bindings content =
     concat (map (extract_line []) (enumerate 1 (split CHR 0x0A content)))"
  by (simp add: extract_bindings_def foldl_extract_line)

lemma extract_bindings_member:
  assumes "(n, behavior, arg) \<in> set (extract_bindings content)"
  shows "\<exists>m. 1 \<le> n \<and> n - 1 < length (split CHR 0x0A content) \<and>
             \<not> is_comment (split CHR 0x0A content ! (n - 1)) \<and>
             m \<in> set (finditer (split CHR 0x0A content ! (n - 1))) \<and>
             behavior = group1 m \<and> arg = group2 m"
proof -
  from assms obtain il where il: "il \<in> set (enumerate 1 (split CHR 0x0A content))"
    and b: "(n, behavior, arg) \<in> set (extract_line [] il)"
    unfolding extract_bindings_concat by auto
  obtain i line where p: "il = (i, line)"
    by (cases il) auto
  from il p have i: "1 \<le> i" "i - 1 < length (split CHR 0x0A content)"
    and line: "line = split CHR 0x0A content ! (i - 1)"
    by (auto simp: in_set_enumerate_eq)
  from b p have nc: "\<not> is_comment line"
    and "(n, behavior, arg) \<in> (\<lambda>m. (i, group1 m, group2 m)) ` set (finditer line)"
    by (auto simp: extract_line_append split: if_splits)
  then obtain m where "m \<in> set (finditer line)" "n = i" "behavior = group1 m" "arg = group2 m"
    by auto
  with i line nc show ?thesis
    by auto
qed

text \<open>
  C3.  A line whose content, once stripped of surrounding white space, starts with \<open>//\<close>
  or with \<open>/*\<close> leaves the list of bindings as it was, whatever the line contains, and
  no extracted binding carries the number of such a line.
\<close>

theorem comment_lines_skipped:
  assumes "i < length (split CHR 0x0A content)"
    and "startswith (strip (split CHR 0x0A content ! i)) ''//'' \<or>
         startswith (strip (split CHR 0x0A content ! i)) ''/*''"
  shows "extract_line bindings (i + 1, split CHR 0x0A content ! i) = bindings \<and>
         (\<forall>b\<in>set (extract_bindings content). fst b \<noteq> i + 1)"
proof -
  from assms(2) have c: "is_comment (split CHR 0x0A content ! i)"
    by (simp add: is_comment_def)
  then have "extract_line bindings (i + 1, split CHR 0x0A content ! i) = bindings"
    by (simp add: extract_line_append)
  moreover have "fst b \<noteq> i + 1" if "b \<in> set (extract_bindings content)" for b
  proof -
    obtain n behavior arg where b: "b = (n, behavior, arg)"
      by (cases b) auto
    from extract_bindings_member [OF that [unfolded b]] c show ?thesis
      unfolding b by auto
  qed
  ultimately show ?thesis
    by blast
qed

theorem comment_lines_skipped_witness:
  "split CHR 0x0A (''&kp A'' @ [CHR 0x0A] @ ''  // &kp ZZZZ'') ! 1 = ''  // &kp ZZZZ'' \<and>
   startswith (strip ''  // &kp ZZZZ'') ''//'' \<and>
   (2, ''kp'', ''ZZZZ'') \<notin> set (extract_bindings (''&kp A'' @ [CHR 0x0A] @ ''  // &kp ZZZZ''))"
proof -
  let ?C = "''&kp A'' @ [CHR 0x0A] @ ''  // &kp ZZZZ''"
  have l: "split CHR 0x0A ?C ! 1 = ''  // &kp ZZZZ''"
    by code_simp
  have s: "startswith (strip ''  // &kp ZZZZ'') ''//''"
    by code_simp
  have 1: "1 < length (split CHR 0x0A ?C)"
    by code_simp
  have 2: "startswith (strip (split CHR 0x0A ?C ! 1)) ''//'' \<or>
           startswith (strip (split CHR 0x0A ?C ! 1)) ''/*''"
    unfolding l using s by simp
  from comment_lines_skipped [OF 1 2]
  have "\<forall>b\<in>set (extract_bindings ?C). fst b \<noteq> 1 + 1"
    by (rule conjunct2)
  then have "(2, ''kp'', ''ZZZZ'') \<notin> set (extract_bindings ?C)"
    by fastforce
  with l s show ?thesis
    by (simp del: append.simps)
qed


section \<open>Every occurrence of the pattern is found\<close>

lemma takeWhile_exact:
  assumes "\<forall>c\<in>set xs. P c" and "ys = [] \<or> \<not> P (hd ys)"
  shows "takeWhile P (xs @ ys) = xs" and "dropWhile P (xs @ ys) = ys"
proof -
  from assms(2) have t: "takeWhile P ys = []" and d: "dropWhile P ys = ys"
    by (cases ys; auto)+
  from assms(1) show "takeWhile P (xs @ ys) = xs"
    by (simp add: takeWhile_append2 t)
  from assms(1) show "dropWhile P (xs @ ys) = ys"
    by (simp add: dropWhile_append2 d)
qed

lemma match_here_complete:
  assumes "g1 \<noteq> []" and "\<forall>c\<in>set g1. is_word c"
    and "ws \<noteq> []" and "\<forall>c\<in>set ws. isspace c"
    and "g2 \<noteq> []" and "\<forall>c\<in>set g2. is_arg_char c"
    and "post = [] \<or> \<not> is_arg_char (hd post)"
  shows "match_here (CHR ''&'' # g1 @ ws @ g2 @ post) = Some (g1, ws, g2)"
proof -
  from assms(3,4) have "ws @ g2 @ post = [] \<or> \<not> is_word (hd (ws @ g2 @ post))"
    by (cases ws) (auto dest: space_not_word)
  note 1 = takeWhile_exact [OF assms(2) this]
  from assms(5,6) have "g2 @ post = [] \<or> \<not> isspace (hd (g2 @ post))"
    by (cases g2) (auto dest: arg_char_not_space)
  note 2 = takeWhile_exact [OF assms(4) this]
  note 3 = takeWhile_exact [OF assms(6,7)]
  show ?thesis
    using assms(1,3,5) by (simp add: match_here_def Let_def 1 2 3)
qed

text \<open>
  However the pattern is matched at the head of a string, the two groups and the white
  space are the ones found by taking the longest runs: trying shorter runs finds nothing
  else.
\<close>

lemma match_here_longest:
  assumes "g1 \<noteq> []" and "\<forall>c\<in>set g1. is_word c"
    and "ws \<noteq> []" and "\<forall>c\<in>set ws. isspace c"
    and "g2 \<noteq> []" and "\<forall>c\<in>set g2. is_arg_char c"
  shows "match_here (CHR ''&'' # g1 @ ws @ g2 @ post) =
           Some (g1, ws, g2 @ takeWhile is_arg_char post)"
proof -
  let ?g2 = "g2 @ takeWhile is_arg_char post"
  let ?post = "dropWhile is_arg_char post"
  from assms(5) have a: "?g2 \<noteq> []"
    by simp
  from assms(6) have b: "\<forall>c\<in>set ?g2. is_arg_char c"
    by (auto dest: set_takeWhileD)
  have c: "?post = [] \<or> \<not> is_arg_char (hd ?post)"
    using hd_dropWhile [of is_arg_char post] by blast
  have "match_here (CHR ''&'' # g1 @ ws @ ?g2 @ ?post) = Some (g1, ws, ?g2)"
    by (rule match_here_complete [OF assms(1-4) a b c])
  then show ?thesis
    by simp
qed



text \<open>
  C9.  The argument of every extracted binding is a non-empty string of letters \<open>A\<close> to
  \<open>Z\<close> and \<open>a\<close> to \<open>z\<close>, digits and underscores; it contains no space.  So it is
  never one of the five entries \<open>BT_SEL 0\<close> to \<open>BT_SEL 4\<close> of the keycode set, and a
  \<open>kp\<close> binding with this argument passes exactly when the argument is one of the other
  entries.
\<close>

theorem argument_tokens:
  assumes "(n, behavior, arg) \<in> set (extract_bindings content)"
  shows "arg \<noteq> [] \<and>
         (\<forall>c\<in>set arg. (CHR ''A'' \<le> c \<and> c \<le> CHR ''Z'') \<or> (CHR ''a'' \<le> c \<and> c \<le> CHR ''z'') \<or>
                       (CHR ''0'' \<le> c \<and> c \<le> CHR ''9'') \<or> c = CHR ''_'') \<and>
         CHR '' '' \<notin> set arg \<and>
         arg \<notin> {''BT_SEL 0'', ''BT_SEL 1'', ''BT_SEL 2'', ''BT_SEL 3'', ''BT_SEL 4''} \<and>
         {''BT_SEL 0'', ''BT_SEL 1'', ''BT_SEL 2'', ''BT_SEL 3'', ''BT_SEL 4''} \<subseteq> VALID_KEYCODES \<and>
         ((validate_step it [] (n, ''kp'', arg) = []) =
          (arg \<in> VALID_KEYCODES - {''BT_SEL 0'', ''BT_SEL 1'', ''BT_SEL 2'', ''BT_SEL 3'', ''BT_SEL 4''}))"
proof -
  from extract_bindings_member [OF assms] obtain m line
    where "m \<in> set (scan 0 line)" and "arg = group2 m"
    unfolding finditer_def by blast
  with scan_member [of m 0 line] have ne: "arg \<noteq> []" and cl: "\<forall>c\<in>set arg. is_arg_char c"
    by simp_all
  from cl have sp: "CHR '' '' \<notin> set arg"
    by (auto simp: is_arg_char_def)
  then have no: "arg \<notin> {''BT_SEL 0'', ''BT_SEL 1'', ''BT_SEL 2'', ''BT_SEL 3'', ''BT_SEL 4''}"
    by auto
  have sub: "{''BT_SEL 0'', ''BT_SEL 1'', ''BT_SEL 2'', ''BT_SEL 3'', ''BT_SEL 4''} \<subseteq> VALID_KEYCODES"
    by code_simp
  have "(validate_step it [] (n, ''kp'', arg) = []) = (arg \<in> VALID_KEYCODES)"
    by (simp add: validate_step_def)
  with ne cl sp no sub show ?thesis
    unfolding is_arg_char_def by blast
qed

theorem argument_tokens_witness:
  "(1, ''kp'', ''BT_SEL'') \<in> set (extract_bindings ''&kp BT_SEL 0'') \<and>
   validate_step sorted_list_of_set [] (1, ''kp'', ''BT_SEL'') =
     [''Line 1: Unknown keycode '' @ squote ''BT_SEL'']"
proof -
  have e: "(1, ''kp'', ''BT_SEL'') \<in> set (extract_bindings ''&kp BT_SEL 0'')"
    by code_simp
  have "validate_step sorted_list_of_set [] (1, ''kp'', ''BT_SEL'') \<noteq> []"
    using argument_tokens [OF e, of sorted_list_of_set] by code_simp
  moreover have "kp_message 1 ''BT_SEL'' = ''Line 1: Unknown keycode '' @ squote ''BT_SEL''"
    by code_simp
  ultimately show ?thesis
    using e by (simp add: validate_step_def split: if_splits)
qed




section \<open>The order of the diagnostics\<close>

lemma scan_span:
  "m \<in> set (scan pos s) \<Longrightarrow>
     \<exists>ws. ws \<noteq> [] \<and> (\<forall>c\<in>set ws. isspace c) \<and>
          take (span_end m - span_start m) (drop (span_start m - pos) s) =
            CHR ''&'' # group1 m @ ws @ group2 m"
proof (induction "length s" arbitrary: s pos rule: less_induct)
  case less
  show ?case
  proof (cases s)
    case Nil
    with less.prems show ?thesis by (simp add: scan.simps)
  next
    case (Cons c cs)
    show ?thesis
    proof (cases "match_here (c # cs)")
      case None
      with less.prems Cons have m: "m \<in> set (scan (Suc pos) cs)"
        by (simp only: scan_None)
      from scan_member [OF m] have "Suc pos \<le> span_start m"
        by simp
      then have "drop (span_start m - pos) (c # cs) = drop (span_start m - Suc pos) cs"
        by (simp add: Suc_diff_le drop_Cons')
      with less.hyps [of cs "Suc pos"] m Cons show ?thesis
        by simp
    next
      case (Some t)
      obtain g1 ws g2 where t: "t = (g1, ws, g2)"
        by (cases t) auto
      let ?n = "length g1 + length ws + length g2"
      note d = match_here_SomeD [OF Some [unfolded t]]
      from d(1) obtain rest where rest: "cs = (g1 @ ws @ g2) @ rest"
        by auto
      define p' where "p' = pos + (1 + length g1 + length ws + length g2)"
      from less.prems Cons Some t
      consider "m = \<lparr>span_start = pos, span_end = p', group1 = g1, group2 = g2\<rparr>"
        | "m \<in> set (scan p' (drop ?n cs))"
        unfolding p'_def by (auto simp only: scan_Some set_simps)
      then show ?thesis
      proof cases
        case 1
        have "take (p' - pos) (c # cs) = CHR ''&'' # g1 @ ws @ g2"
          using d(1) rest unfolding p'_def by simp
        with 1 d(3,6) Cons show ?thesis
          by auto
      next
        case 2
        have shorter: "length (drop ?n cs) < length s"
          using Cons by simp
        from scan_member [OF 2] have "p' \<le> span_start m"
          by simp
        then have "span_start m - pos = Suc ?n + (span_start m - p')"
          unfolding p'_def by simp
        then have "drop (span_start m - pos) (c # cs) = drop (span_start m - p') (drop ?n cs)"
          by (simp add: add.commute)
        with less.hyps [OF shorter 2] Cons show ?thesis
          by simp
      qed
    qed
  qed
qed

lemma validate_step_length: "length (validate_step it [] b) \<le> 1"
  by (cases b) (simp add: validate_step_def)

lemma count_concat_singletons:
  assumes "\<forall>b. length (f b) \<le> 1"
  shows "length (filter (\<lambda>e. e = d) (concat (map f bs))) =
         length (filter (\<lambda>b. f b = [d]) bs)"
proof (induction bs)
  case Nil
  show ?case by simp
next
  case (Cons b bs)
  from assms have "length (f b) \<le> 1"
    by blast
  then consider "f b = []" | x where "f b = [x]"
    by (cases "f b") auto
  then show ?case
    using Cons.IH by cases auto
qed

lemma line_numbers_ge:
  assumes "b \<in> set (concat (map (extract_line []) (enumerate n ls)))"
  shows "n \<le> fst b"
proof -
  from assms obtain il where il: "il \<in> set (enumerate n ls)" and b: "b \<in> set (extract_line [] il)"
    by auto
  obtain i line where p: "il = (i, line)"
    by (cases il) auto
  from il p have "n \<le> i"
    by (simp add: in_set_enumerate_eq)
  moreover from b p have "fst b = i"
    by (auto simp: extract_line_append split: if_splits)
  ultimately show ?thesis
    by simp
qed

lemma line_numbers_sorted:
  "sorted (map fst (concat (map (extract_line []) (enumerate n ls))))"
proof (induction ls arbitrary: n)
  case Nil
  show ?case by simp
next
  case (Cons l ls)
  have here: "\<forall>x\<in>set (map fst (extract_line [] (n, l))). x = n"
    by (auto simp: extract_line_append)
  then have "sorted (map fst (extract_line [] (n, l)))"
    by (simp add: sorted_wrt_iff_nth_less)
  moreover have "\<forall>y\<in>set (map fst (concat (map (extract_line []) (enumerate (Suc n) ls)))). 
      Suc n \<le> y"
    using line_numbers_ge by fastforce
  ultimately show ?case
    using Cons.IH [of "Suc n"] here by (simp add: sorted_append) fastforce
qed

text \<open>
  C5.  The errors are the diagnostics of the extracted bindings, one binding after the
  other, each binding giving one diagnostic or none; a diagnostic is reported as many times
  as there are bindings that give it, so nothing is removed as a duplicate.  The bindings
  come line by line with rising line numbers, and within a line in the order of the
  matches, each of which ends before the next one starts and spans the text of its
  binding.
\<close>

theorem diagnostics_in_scan_order:
  "validate_bindings it (extract_bindings content) =
     concat (map (validate_step it []) (extract_bindings content)) \<and>
   (\<forall>b. length (validate_step it [] b) \<le> 1) \<and>
   (\<forall>d. length (filter (\<lambda>e. e = d) (validate_bindings it (extract_bindings content))) =
        length (filter (\<lambda>b. validate_step it [] b = [d]) (extract_bindings content))) \<and>
   extract_bindings content =
     concat (map (\<lambda>(i, line).
                    if startswith (strip line) ''//'' \<or> startswith (strip line) ''/*'' then []
                    else map (\<lambda>m. (i, group1 m, group2 m)) (finditer line))
               (enumerate 1 (split CHR 0x0A content))) \<and>
   sorted (map fst (extract_bindings content)) \<and>
   (\<forall>line. sorted_wrt (\<lambda>m m'. span_end m \<le> span_start m') (finditer line)) \<and>
   (\<forall>line. \<forall>m\<in>set (finditer line).
      \<exists>ws. take (span_end m - span_start m) (drop (span_start m) line) =
             ''&'' @ group1 m @ ws @ group2 m)"
proof -
  have 1: "validate_bindings it (extract_bindings content) =
     concat (map (validate_step it []) (extract_bindings content))"
    by (rule validate_bindings_concat)
  have 2: "\<forall>b. length (validate_step it [] b) \<le> 1"
    using validate_step_length by blast
  have 3: "\<forall>d. length (filter (\<lambda>e. e = d) (validate_bindings it (extract_bindings content))) =
        length (filter (\<lambda>b. validate_step it [] b = [d]) (extract_bindings content))"
    unfolding 1 using count_concat_singletons [OF 2] by blast
  have "extract_line [] = (\<lambda>(i, line).
                    if startswith (strip line) ''//'' \<or> startswith (strip line) ''/*'' then []
                    else map (\<lambda>m. (i, group1 m, group2 m)) (finditer line))"
    by (rule ext) (auto simp: extract_line_append is_comment_def)
  then have 4: "extract_bindings content =
     concat (map (\<lambda>(i, line).
                    if startswith (strip line) ''//'' \<or> startswith (strip line) ''/*'' then []
                    else map (\<lambda>m. (i, group1 m, group2 m)) (finditer line))
               (enumerate 1 (split CHR 0x0A content)))"
    by (simp only: extract_bindings_concat)
  have 5: "sorted (map fst (extract_bindings content))"
    unfolding extract_bindings_concat by (rule line_numbers_sorted)
  have 6: "\<forall>line. sorted_wrt (\<lambda>m m'. span_end m \<le> span_start m') (finditer line)"
    by (simp add: finditer_def scan_sorted)
  have 7: "\<forall>line. \<forall>m\<in>set (finditer line).
      \<exists>ws. take (span_end m - span_start m) (drop (span_start m) line) =
             ''&'' @ group1 m @ ws @ group2 m"
    unfolding finditer_def using scan_span [of _ 0] by fastforce
  from 1 2 3 4 5 6 7 show ?thesis
    by blast
qed

theorem diagnostics_in_scan_order_witness:
  "validate_bindings sorted_list_of_set
     (extract_bindings (''&mkp MB9'' @ [CHR 0x0A] @ ''&kp ZZZZ &kp A &kp ZZZZ'')) =
     [''Line 1: Invalid mouse button 'MB9' (valid: LCLK, MB1, MB2, MB3, MB4, MB5, MCLK, RCLK)'',
      ''Line 2: Unknown keycode '' @ squote ''ZZZZ'',
      ''Line 2: Unknown keycode '' @ squote ''ZZZZ'']"
proof -
  let ?C = "''&mkp MB9'' @ [CHR 0x0A] @ ''&kp ZZZZ &kp A &kp ZZZZ''"
  have e: "extract_bindings ?C =
      [(1, ''mkp'', ''MB9''), (2, ''kp'', ''ZZZZ''), (2, ''kp'', ''A''), (2, ''kp'', ''ZZZZ'')]"
    by code_simp
  have s1: "validate_step sorted_list_of_set [] (1, ''mkp'', ''MB9'') =
      [''Line 1: Invalid mouse button 'MB9' (valid: LCLK, MB1, MB2, MB3, MB4, MB5, MCLK, RCLK)'']"
    by code_simp
  have s2: "validate_step sorted_list_of_set [] (2, ''kp'', ''ZZZZ'') =
      [''Line 2: Unknown keycode '' @ squote ''ZZZZ'']"
    by code_simp
  have s3: "validate_step sorted_list_of_set [] (2, ''kp'', ''A'') = []"
    by code_simp
  from diagnostics_in_scan_order [of sorted_list_of_set ?C]
  have "validate_bindings sorted_list_of_set (extract_bindings ?C) =
      concat (map (validate_step sorted_list_of_set []) (extract_bindings ?C))"
    by (rule conjunct1)
  then show ?thesis
    unfolding e by (simp only: list.map concat.simps s1 s2 s3 append.simps)
qed

end
